theory Spec2Isabelle
  imports Main
begin

section \<open>Blink Tac Toe: the game state of app/page.tsx\<close>

text \<open>
  The component \<open>BlinkTacToe\<close> keeps its whole state in React hooks. The model below
  holds that state in one record and turns every handler into a function from state to
  state. \<open>playSound\<close> only drives the Web Audio API and never writes game state, so it
  is left out. The two sources of randomness of \<open>handleCellClick\<close> (the palette position
  and the text of the identity token) are parameters of the handler.
\<close>

subsection \<open>Data (lines 10-34)\<close>

datatype player = P1 | P2

record CellValue =
  emoji :: string
  player :: player
  turnsLeft :: int
  id_str :: string

datatype GameState = Playing | Won | Draw

record EmojiCounts =
  count1 :: nat
  count2 :: nat

record GameStats =
  moves :: nat
  vanishedEmojis :: nat

text \<open>
  \<open>pendingAging\<close> is the number of timers started by \<open>setTimeout(ageEmojis, 500)\<close>
  that have not fired yet. It is state of the browser, not of a hook; nothing in the
  component reads or clears it.
\<close>

record game =
  board :: "CellValue option list"
  currentPlayer :: player
  gameState :: GameState
  winner :: "player option"
  emojiCounts :: EmojiCounts
  gameStats :: GameStats
  pendingAging :: nat

text \<open>The palettes, each glyph written by its name.\<close>

fun PLAYER_EMOJIS :: "player \<Rightarrow> string list" where
  "PLAYER_EMOJIS P1 = [''fire'', ''high voltage'', ''dizzy'', ''glowing star'', ''sparkles'']"
| "PLAYER_EMOJIS P2 = [''water wave'', ''snowflake'', ''crescent moon'', ''gem stone'', ''crystal ball'']"

definition BLINK_DURATION :: int where
  "BLINK_DURATION = 3"

definition MAX_EMOJIS_PER_PLAYER :: nat where
  "MAX_EMOJIS_PER_PLAYER = 6"

fun countOf :: "player \<Rightarrow> EmojiCounts \<Rightarrow> nat" where
  "countOf P1 ec = count1 ec"
| "countOf P2 ec = count2 ec"

fun countInc :: "player \<Rightarrow> EmojiCounts \<Rightarrow> EmojiCounts" where
  "countInc P1 ec = ec\<lparr>count1 := count1 ec + 1\<rparr>"
| "countInc P2 ec = ec\<lparr>count2 := count2 ec + 1\<rparr>"

fun playerDigit :: "player \<Rightarrow> string" where
  "playerDigit P1 = ''1''"
| "playerDigit P2 = ''2''"

fun otherPlayer :: "player \<Rightarrow> player" where
  "otherPlayer P1 = P2"
| "otherPlayer P2 = P1"

definition initial :: game where
  "initial = \<lparr> board = replicate 9 None, currentPlayer = P1, gameState = Playing,
               winner = None, emojiCounts = \<lparr> count1 = 0, count2 = 0 \<rparr>,
               gameStats = \<lparr> moves = 0, vanishedEmojis = 0 \<rparr>, pendingAging = 0 \<rparr>"

text \<open>
  \<open>board[i]\<close>: a read past the end of a JavaScript array gives \<open>undefined\<close>, which is
  falsy like \<open>null\<close>.
\<close>

definition slot :: "CellValue option list \<Rightarrow> nat \<Rightarrow> CellValue option" where
  "slot b i = (if i < length b then b ! i else None)"

subsection \<open>checkWinner (lines 77-101)\<close>

definition lines :: "(nat \<times> nat \<times> nat) list" where
  "lines = [(0, 1, 2), (3, 4, 5), (6, 7, 8),
            (0, 3, 6), (1, 4, 7), (2, 5, 8),
            (0, 4, 8), (2, 4, 6)]"

text \<open>The \<open>for\<close> loop over \<open>lines\<close>, returning from inside the loop at the first hit.\<close>

fun checkLines :: "CellValue option list \<Rightarrow> (nat \<times> nat \<times> nat) list \<Rightarrow> player option" where
  "checkLines bd [] = None"
| "checkLines bd ((a, b, c) # rest) =
     (case slot bd a of
        None \<Rightarrow> checkLines bd rest
      | Some x \<Rightarrow>
          (case slot bd b of
             None \<Rightarrow> checkLines bd rest
           | Some y \<Rightarrow>
               (case slot bd c of
                  None \<Rightarrow> checkLines bd rest
                | Some z \<Rightarrow>
                    if player x = player y \<and> player y = player z then Some (player x)
                    else checkLines bd rest)))"

definition checkWinner :: "CellValue option list \<Rightarrow> player option" where
  "checkWinner bd = checkLines bd lines"

subsection \<open>ageEmojis (lines 104-123)\<close>

fun ageCell :: "CellValue option \<Rightarrow> CellValue option" where
  "ageCell None = None"
| "ageCell (Some cell) =
     (if turnsLeft cell > 0 then Some (cell\<lparr>turnsLeft := turnsLeft cell - 1\<rparr>) else Some cell)"

fun expired :: "CellValue option \<Rightarrow> bool" where
  "expired None = False"
| "expired (Some cell) = (turnsLeft cell = 0)"

text \<open>
  The callback of \<open>newBoard.filter\<close> sees the aged cell and, through the index, the
  slot of \<open>prevBoard\<close> at the same position: the two boards are walked in step.
\<close>

definition vanishedCount :: "CellValue option list \<Rightarrow> CellValue option list \<Rightarrow> nat" where
  "vanishedCount newBoard prevBoard =
     length (filter (\<lambda>(cell, prev). expired cell \<and> prev \<noteq> None) (zip newBoard prevBoard))"

definition clearExpired :: "CellValue option list \<Rightarrow> CellValue option list" where
  "clearExpired newBoard = map (\<lambda>cell. if expired cell then None else cell) newBoard"

definition ageEmojis :: "game \<Rightarrow> game" where
  "ageEmojis s =
     (let prevBoard = board s;
          newBoard = map ageCell prevBoard;
          n = vanishedCount newBoard prevBoard;
          stats = (if n > 0
                   then (gameStats s)\<lparr>vanishedEmojis := vanishedEmojis (gameStats s) + n\<rparr>
                   else gameStats s)
      in s\<lparr>board := clearExpired newBoard, gameStats := stats\<rparr>)"

subsection \<open>handleCellClick (lines 126-167)\<close>

definition rejected :: "nat \<Rightarrow> game \<Rightarrow> bool" where
  "rejected index s \<longleftrightarrow>
     slot (board s) index \<noteq> None \<or> gameState s \<noteq> Playing
     \<or> countOf (currentPlayer s) (emojiCounts s) \<ge> MAX_EMOJIS_PER_PLAYER"

definition newCell :: "player \<Rightarrow> nat \<Rightarrow> string \<Rightarrow> CellValue" where
  "newCell p glyph stamp =
     \<lparr> emoji = PLAYER_EMOJIS p ! glyph, player = p, turnsLeft = BLINK_DURATION,
       id_str = playerDigit p @ ''-'' @ stamp \<rparr>"

text \<open>
  \<open>newBoard[index] = newCell\<close>. The handler is bound to the nine buttons that
  \<open>board.map\<close> renders, so \<open>index\<close> is below the length of the board; an assignment
  past the end would lengthen a JavaScript array, which is written out here with the
  skipped slots empty.
\<close>

definition setSlot :: "CellValue option list \<Rightarrow> nat \<Rightarrow> CellValue \<Rightarrow> CellValue option list" where
  "setSlot b i c =
     (if i < length b then b[i := Some c]
      else b @ replicate (i - length b) None @ [Some c])"

definition handleCellClick :: "nat \<Rightarrow> nat \<Rightarrow> string \<Rightarrow> game \<Rightarrow> game" where
  "handleCellClick index glyph stamp s =
     (if rejected index s then s
      else
        let p = currentPlayer s;
            newBoard = setSlot (board s) index (newCell p glyph stamp);
            s1 = s\<lparr>board := newBoard,
                   emojiCounts := countInc p (emojiCounts s),
                   gameStats := (gameStats s)\<lparr>moves := moves (gameStats s) + 1\<rparr>\<rparr>
        in case checkWinner newBoard of
             Some w \<Rightarrow> s1\<lparr>winner := Some w, gameState := Won\<rparr>
           | None \<Rightarrow>
               if list_all (\<lambda>cell. cell \<noteq> None) newBoard then s1\<lparr>gameState := Draw\<rparr>
               else s1\<lparr>currentPlayer := otherPlayer p, pendingAging := pendingAging s1 + 1\<rparr>)"

subsection \<open>resetGame (lines 170-177)\<close>

definition resetGame :: "game \<Rightarrow> game" where
  "resetGame s =
     s\<lparr>board := replicate 9 None, currentPlayer := P1, gameState := Playing, winner := None,
       emojiCounts := \<lparr> count1 = 0, count2 = 0 \<rparr>,
       gameStats := \<lparr> moves = 0, vanishedEmojis = 0 \<rparr>\<rparr>"

subsection \<open>The effect that re-evaluates the outcome (lines 180-192)\<close>

definition useEffect :: "game \<Rightarrow> game" where
  "useEffect s =
     (if gameState s = Playing then
        (case checkWinner (board s) of
           Some w \<Rightarrow> s\<lparr>winner := Some w, gameState := Won\<rparr>
         | None \<Rightarrow>
             if list_all (\<lambda>cell. cell = None) (board s) \<and> moves (gameStats s) > 0
             then s\<lparr>gameState := Draw\<rparr>
             else s)
      else s)"

subsection \<open>Events\<close>

text \<open>
  What can happen to the component: a click on one of the buttons, one of the pending
  timers firing, a click on reset. React renders again after a handler that has set
  state and then runs the effect; a rejected click sets nothing. The buttons are
  disabled only by the three tests that \<open>handleCellClick\<close> makes itself, so a click
  can arrive while timers are still pending, and a timer fires whatever the game state
  is by then.
\<close>

datatype event = Click nat nat string | AgingTimer | Reset

text \<open>One pending timer fires: it is used up and \<open>ageEmojis\<close> runs.\<close>

definition fireAging :: "game \<Rightarrow> game" where
  "fireAging s = ageEmojis (s\<lparr>pendingAging := pendingAging s - 1\<rparr>)"

fun step :: "event \<Rightarrow> game \<Rightarrow> game" where
  "step (Click index glyph stamp) s =
     (if rejected index s then s else useEffect (handleCellClick index glyph stamp s))"
| "step AgingTimer s = (if pendingAging s = 0 then s else useEffect (fireAging s))"
| "step Reset s = useEffect (resetGame s)"

fun enabled :: "event \<Rightarrow> game \<Rightarrow> bool" where
  "enabled (Click index glyph stamp) s \<longleftrightarrow>
     index < length (board s) \<and> glyph < length (PLAYER_EMOJIS (currentPlayer s))"
| "enabled AgingTimer s \<longleftrightarrow> 0 < pendingAging s"
| "enabled Reset s \<longleftrightarrow> True"

fun run :: "event list \<Rightarrow> game \<Rightarrow> game" where
  "run [] s = s"
| "run (e # es) s = run es (step e s)"

fun allEnabled :: "event list \<Rightarrow> game \<Rightarrow> bool" where
  "allEnabled [] s \<longleftrightarrow> True"
| "allEnabled (e # es) s \<longleftrightarrow> enabled e s \<and> allEnabled es (step e s)"

inductive reachable :: "game \<Rightarrow> bool" where
  start: "reachable initial"
| event: "reachable s \<Longrightarrow> enabled e s \<Longrightarrow> reachable (step e s)"

subsection \<open>Vocabulary of the properties\<close>

definition owner :: "CellValue option list \<Rightarrow> nat \<Rightarrow> player option" where
  "owner bd i = map_option player (slot bd i)"

text \<open>A triple is won by \<open>p\<close>: its three slots are live and all belong to \<open>p\<close>.\<close>

fun winsLine :: "CellValue option list \<Rightarrow> nat \<times> nat \<times> nat \<Rightarrow> player \<Rightarrow> bool" where
  "winsLine bd (a, b, c) p \<longleftrightarrow>
     owner bd a = Some p \<and> owner bd b = Some p \<and> owner bd c = Some p"

text \<open>The triples of the row-major 3x3 grid, from the geometry.\<close>

definition rows :: "(nat \<times> nat \<times> nat) list" where
  "rows = map (\<lambda>r. (3 * r, 3 * r + 1, 3 * r + 2)) [0, 1, 2]"

definition columns :: "(nat \<times> nat \<times> nat) list" where
  "columns = map (\<lambda>c. (c, c + 3, c + 6)) [0, 1, 2]"

definition diagonals :: "(nat \<times> nat \<times> nat) list" where
  "diagonals = [(0, 4, 8), (2, 4, 6)]"

text \<open>The number of live cells of a player on a board.\<close>

definition liveCount :: "player \<Rightarrow> CellValue option list \<Rightarrow> nat" where
  "liveCount p bd = length (filter (\<lambda>c. map_option player c = Some p) bd)"

text \<open>
  The aging pass in the words of the specification: every live cell loses one turn of
  lifetime, then every cell that has reached 0 is removed, and the number of removed
  cells is returned.
\<close>

definition spec_decrement :: "CellValue option list \<Rightarrow> CellValue option list" where
  "spec_decrement bd = map (map_option (\<lambda>cell. cell\<lparr>turnsLeft := turnsLeft cell - 1\<rparr>)) bd"

definition spec_remove :: "CellValue option list \<Rightarrow> CellValue option list" where
  "spec_remove bd =
     map (\<lambda>c. case c of None \<Rightarrow> None
                | Some cell \<Rightarrow> if turnsLeft cell = 0 then None else Some cell) bd"

definition removedCount :: "CellValue option list \<Rightarrow> CellValue option list \<Rightarrow> nat" where
  "removedCount before after =
     length (filter (\<lambda>(old, new). old \<noteq> None \<and> new = None) (zip before after))"

definition spec_ageCells :: "CellValue option list \<Rightarrow> CellValue option list \<times> nat" where
  "spec_ageCells bd =
     (let after = spec_remove (spec_decrement bd) in (after, removedCount bd after))"

text \<open>Every live cell still has at least one turn of lifetime.\<close>

definition positiveLifetimes :: "CellValue option list \<Rightarrow> bool" where
  "positiveLifetimes bd \<longleftrightarrow>
     list_all (\<lambda>c. case c of None \<Rightarrow> True | Some cell \<Rightarrow> 0 < turnsLeft cell) bd"

text \<open>The invariants carried along every run of the component.\<close>

definition lifetimesOk :: "CellValue option list \<Rightarrow> bool" where
  "lifetimesOk bd \<longleftrightarrow>
     (\<forall>c\<in>set bd. \<forall>cell. c = Some cell \<longrightarrow> 1 \<le> turnsLeft cell \<and> turnsLeft cell \<le> 3)"

definition countsOk :: "game \<Rightarrow> bool" where
  "countsOk s \<longleftrightarrow>
     (\<forall>p. liveCount p (board s) \<le> countOf p (emojiCounts s)
          \<and> countOf p (emojiCounts s) \<le> MAX_EMOJIS_PER_PLAYER)"

subsection \<open>Concrete boards and runs\<close>

text \<open>Player 2 holds the top row and player 1 the middle row.\<close>

definition c8_board :: "CellValue option list" where
  "c8_board =
     [Some (newCell P2 0 ''a''), Some (newCell P2 1 ''b''), Some (newCell P2 2 ''c''),
      Some (newCell P1 0 ''d''), Some (newCell P1 1 ''e''), Some (newCell P1 2 ''f''),
      None, None, None]"

definition c3_state :: game where
  "c3_state = run [Click 4 0 ''t1''] initial"

definition c9_state :: game where
  "c9_state = run [Click 0 0 ''t1'', Click 4 0 ''t2'', AgingTimer, AgingTimer] initial"

definition c4_events :: "event list" where
  "c4_events = [Click 0 0 ''t1'', Click 4 1 ''t2'', AgingTimer, Click 8 2 ''t3'']"

definition c5_state :: game where
  "c5_state = run [Click 0 0 ''t1'', Click 4 0 ''t2'', Click 8 0 ''t3'', AgingTimer, AgingTimer] initial"

definition c6_state :: game where
  "c6_state = run [Click 0 0 ''t1'', Click 4 0 ''t2'', AgingTimer, AgingTimer] initial"

definition c7_state :: game where
  "c7_state = run [Click 0 0 ''t1'', Click 3 0 ''t2'', Click 1 0 ''t3'', Click 4 0 ''t4'',
                   Click 5 0 ''t5'', Click 6 0 ''t6'', Click 7 0 ''t7'', Click 8 0 ''t8''] initial"

definition c1_state :: game where
  "c1_state = run [Click 0 0 ''t1'', Click 4 0 ''t2'', Click 8 0 ''t3'', AgingTimer, AgingTimer] initial"

text \<open>
  Vocabulary of the three-in-a-row scenario: a run of aging timers, a live cell of a
  given owner and lifetime at a slot, and the bookkeeping of a game in progress.
\<close>

definition ticks :: "nat \<Rightarrow> event list" where
  "ticks n = replicate n AgingTimer"

definition alive :: "game \<Rightarrow> nat \<Rightarrow> player \<Rightarrow> int \<Rightarrow> bool" where
  "alive s i p t \<longleftrightarrow>
     (case slot (board s) i of None \<Rightarrow> False
      | Some cell \<Rightarrow> player cell = p \<and> turnsLeft cell = t)"

definition phase :: "game \<Rightarrow> nat \<Rightarrow> nat \<Rightarrow> player \<Rightarrow> nat \<Rightarrow> bool" where
  "phase s n1 n2 cur pend \<longleftrightarrow>
     length (board s) = 9 \<and> gameState s = Playing \<and> currentPlayer s = cur \<and> countsOk s
     \<and> count1 (emojiCounts s) = n1 \<and> count2 (emojiCounts s) = n2 \<and> pendingAging s = pend"

text \<open>
  Player 1 places at 0, 1 and 2, player 2 at \<open>j1\<close> and \<open>j2\<close> in between, and
  \<open>a1\<close> to \<open>a4\<close> aging timers fire after the first four moves; \<open>g\<close> and
  \<open>st\<close> give the random choices of each move.
\<close>

definition scenario ::
  "nat \<Rightarrow> nat \<Rightarrow> nat \<Rightarrow> nat \<Rightarrow> nat \<Rightarrow> nat \<Rightarrow> (nat \<Rightarrow> nat) \<Rightarrow> (nat \<Rightarrow> string) \<Rightarrow> event list" where
  "scenario j1 j2 a1 a2 a3 a4 g st =
     [Click 0 (g 0) (st 0)] @ ticks a1 @ [Click j1 (g 1) (st 1)] @ ticks a2
     @ [Click 1 (g 2) (st 2)] @ ticks a3 @ [Click j2 (g 3) (st 3)] @ ticks a4
     @ [Click 2 (g 4) (st 4)]"

text \<open>
  Twelve moves with one aging pass after each: both placement counters reach 6 with
  the game still in Playing.
\<close>

definition c10_events :: "event list" where
  "c10_events =
     [Click 0 0 ''t1'', AgingTimer, Click 1 0 ''t2'', AgingTimer,
      Click 2 0 ''t3'', AgingTimer, Click 3 0 ''t4'', AgingTimer,
      Click 0 1 ''t5'', AgingTimer, Click 1 1 ''t6'', AgingTimer,
      Click 2 1 ''t7'', AgingTimer, Click 3 1 ''t8'', AgingTimer,
      Click 0 2 ''t9'', AgingTimer, Click 1 2 ''t10'', AgingTimer,
      Click 2 2 ''t11'', AgingTimer, Click 3 2 ''t12'', AgingTimer]"

definition c10_state :: game where
  "c10_state = run c10_events initial"

section \<open>Basic facts\<close>

subsection \<open>What each handler leaves alone\<close>

lemma useEffect_fields [simp]:
  "board (useEffect s) = board s"
  "emojiCounts (useEffect s) = emojiCounts s"
  "gameStats (useEffect s) = gameStats s"
  "currentPlayer (useEffect s) = currentPlayer s"
  "pendingAging (useEffect s) = pendingAging s"
  by (simp_all add: useEffect_def split: option.splits)

lemma useEffect_not_playing: "gameState s \<noteq> Playing \<Longrightarrow> useEffect s = s"
  by (simp add: useEffect_def)

lemma ageEmojis_fields [simp]:
  "board (ageEmojis s) = clearExpired (map ageCell (board s))"
  "emojiCounts (ageEmojis s) = emojiCounts s"
  "currentPlayer (ageEmojis s) = currentPlayer s"
  "gameState (ageEmojis s) = gameState s"
  "winner (ageEmojis s) = winner s"
  "pendingAging (ageEmojis s) = pendingAging s"
  "moves (gameStats (ageEmojis s)) = moves (gameStats s)"
  by (simp_all add: ageEmojis_def Let_def)

lemma fireAging_fields [simp]:
  "board (fireAging s) = clearExpired (map ageCell (board s))"
  "emojiCounts (fireAging s) = emojiCounts s"
  "currentPlayer (fireAging s) = currentPlayer s"
  "gameState (fireAging s) = gameState s"
  "pendingAging (fireAging s) = pendingAging s - 1"
  "moves (gameStats (fireAging s)) = moves (gameStats s)"
  by (simp_all add: fireAging_def)

lemma resetGame_fields [simp]:
  "board (resetGame s) = replicate 9 None"
  "emojiCounts (resetGame s) = \<lparr> count1 = 0, count2 = 0 \<rparr>"
  "currentPlayer (resetGame s) = P1"
  "gameState (resetGame s) = Playing"
  by (simp_all add: resetGame_def)

lemma handleCellClick_fields:
  assumes "\<not> rejected index s"
  shows "board (handleCellClick index glyph stamp s)
           = setSlot (board s) index (newCell (currentPlayer s) glyph stamp)"
    and "emojiCounts (handleCellClick index glyph stamp s)
           = countInc (currentPlayer s) (emojiCounts s)"
    and "moves (gameStats (handleCellClick index glyph stamp s)) = moves (gameStats s) + 1"
  using assms by (simp_all add: handleCellClick_def Let_def split: option.splits)

lemma length_clearExpired [simp]: "length (clearExpired bd) = length bd"
  by (simp add: clearExpired_def)

lemma clearExpired_nth:
  "i < length bd \<Longrightarrow> clearExpired bd ! i = (if expired (bd ! i) then None else bd ! i)"
  by (simp add: clearExpired_def)

lemma not_rejected_empty:
  "\<not> rejected index s \<Longrightarrow> index < length (board s) \<Longrightarrow> board s ! index = None"
  by (simp add: rejected_def slot_def)

subsection \<open>The board keeps its nine slots\<close>

lemma step_length:
  assumes "enabled e s" shows "length (board (step e s)) = (if e = Reset then 9 else length (board s))"
proof (cases e)
  case (Click index glyph stamp)
  with assms have "index < length (board s)" by simp
  then show ?thesis
    by (simp add: Click handleCellClick_fields setSlot_def)
next
  case AgingTimer
  then show ?thesis by simp
next
  case Reset
  then show ?thesis by simp
qed

lemma reachable_length: "reachable s \<Longrightarrow> length (board s) = 9"
proof (induction rule: reachable.induct)
  case start
  show ?case by (simp add: initial_def)
next
  case (event s e)
  then show ?case using step_length [of e s] by (simp split: if_splits)
qed

subsection \<open>Lifetimes\<close>

lemma lifetimesOk_replicate [simp]: "lifetimesOk (replicate n None)"
  by (simp add: lifetimesOk_def)

lemma lifetimesOk_age: "lifetimesOk bd \<Longrightarrow> lifetimesOk (clearExpired (map ageCell bd))"
  unfolding lifetimesOk_def clearExpired_def
proof (intro ballI allI impI)
  fix c cell
  assume ok: "\<forall>c\<in>set bd. \<forall>cell. c = Some cell \<longrightarrow> 1 \<le> turnsLeft cell \<and> turnsLeft cell \<le> 3"
    and mem: "c \<in> set (map (\<lambda>cell. if expired cell then None else cell) (map ageCell bd))"
    and c: "c = Some cell"
  from mem obtain d where d: "d \<in> set bd" "c = (if expired (ageCell d) then None else ageCell d)"
    by auto
  with c obtain old where old: "d = Some old" by (cases d) auto
  with ok d(1) have r: "1 \<le> turnsLeft old" "turnsLeft old \<le> 3" by auto
  from d(2) c old r show "1 \<le> turnsLeft cell \<and> turnsLeft cell \<le> 3"
    by (auto split: if_splits)
qed

lemma lifetimesOk_update:
  "lifetimesOk bd \<Longrightarrow> lifetimesOk (bd[i := Some (newCell p glyph stamp)])"
  unfolding lifetimesOk_def
  by (auto dest!: set_update_subset_insert [THEN subsetD] simp: newCell_def BLINK_DURATION_def)

lemma step_lifetimes:
  assumes "enabled e s" "lifetimesOk (board s)" shows "lifetimesOk (board (step e s))"
proof (cases e)
  case (Click index glyph stamp)
  with assms have "index < length (board s)" by simp
  with assms(2) show ?thesis
    by (simp add: Click handleCellClick_fields setSlot_def lifetimesOk_update)
next
  case AgingTimer
  with assms(2) show ?thesis by (simp add: lifetimesOk_age)
next
  case Reset
  then show ?thesis by simp
qed

lemma reachable_lifetimes: "reachable s \<Longrightarrow> lifetimesOk (board s)"
proof (induction rule: reachable.induct)
  case start
  show ?case by (simp add: initial_def)
next
  case (event s e)
  then show ?case by (simp add: step_lifetimes)
qed

subsection \<open>Live cells against placement counters\<close>

lemma liveCount_replicate [simp]: "liveCount p (replicate n None) = 0"
  by (simp add: liveCount_def)

lemma liveCount_age: "liveCount p (clearExpired (map ageCell bd)) \<le> liveCount p bd"
proof (induction bd)
  case Nil
  show ?case by (simp add: liveCount_def clearExpired_def)
next
  case (Cons c bd)
  then show ?case
    by (cases c) (auto simp: liveCount_def clearExpired_def)
qed

lemma liveCount_place:
  "i < length bd \<Longrightarrow> bd ! i = None \<Longrightarrow>
   liveCount p (bd[i := Some cell]) = liveCount p bd + (if player cell = p then 1 else 0)"
proof (induction bd arbitrary: i)
  case Nil
  then show ?case by simp
next
  case (Cons c bd)
  show ?case
  proof (cases i)
    case 0
    with Cons.prems show ?thesis by (simp add: liveCount_def)
  next
    case (Suc j)
    with Cons.prems have "j < length bd" "bd ! j = None" by simp_all
    from Cons.IH [OF this] show ?thesis by (simp add: Suc liveCount_def)
  qed
qed

lemma countOf_countInc: "countOf p (countInc q ec) = countOf p ec + (if p = q then 1 else 0)"
  by (cases p; cases q) simp_all

lemma click_counts:
  assumes i: "index < length (board s)" and ok: "countsOk s"
  shows "countsOk (step (Click index glyph stamp) s)"
proof (cases "rejected index s")
  case True
  with ok show ?thesis by simp
next
  case False
  with i have e: "board s ! index = None" by (simp add: not_rejected_empty)
  from False have lt: "countOf (currentPlayer s) (emojiCounts s) < MAX_EMOJIS_PER_PLAYER"
    by (simp add: rejected_def)
  show ?thesis unfolding countsOk_def
  proof
    fix p
    from ok have "liveCount p (board s) \<le> countOf p (emojiCounts s)"
      "countOf p (emojiCounts s) \<le> MAX_EMOJIS_PER_PLAYER" by (simp_all add: countsOk_def)
    with lt show "liveCount p (board (step (Click index glyph stamp) s))
            \<le> countOf p (emojiCounts (step (Click index glyph stamp) s))
          \<and> countOf p (emojiCounts (step (Click index glyph stamp) s)) \<le> MAX_EMOJIS_PER_PLAYER"
      using False i e
      by (auto simp: handleCellClick_fields setSlot_def liveCount_place
          countOf_countInc newCell_def)
  qed
qed

lemma fireAging_counts:
  assumes "countsOk s" shows "countsOk (fireAging s)"
  unfolding countsOk_def
proof
  fix p
  from assms have "liveCount p (board s) \<le> countOf p (emojiCounts s)"
    "countOf p (emojiCounts s) \<le> MAX_EMOJIS_PER_PLAYER" by (simp_all add: countsOk_def)
  then show "liveCount p (board (fireAging s)) \<le> countOf p (emojiCounts (fireAging s))
        \<and> countOf p (emojiCounts (fireAging s)) \<le> MAX_EMOJIS_PER_PLAYER"
    using liveCount_age [of p "board s"] by simp
qed

lemma useEffect_counts: "countsOk (useEffect s) = countsOk s"
  by (simp add: countsOk_def)

lemma step_counts:
  assumes "enabled e s" "countsOk s" shows "countsOk (step e s)"
proof (cases e)
  case (Click index glyph stamp)
  with assms show ?thesis by (simp only: enabled.simps click_counts)
next
  case AgingTimer
  with assms show ?thesis by (simp add: fireAging_counts useEffect_counts)
next
  case Reset
  show ?thesis unfolding countsOk_def
  proof
    fix p show "liveCount p (board (step e s)) \<le> countOf p (emojiCounts (step e s))
          \<and> countOf p (emojiCounts (step e s)) \<le> MAX_EMOJIS_PER_PLAYER"
      by (cases p) (simp_all add: Reset)
  qed
qed

lemma reachable_counts: "reachable s \<Longrightarrow> countsOk s"
proof (induction rule: reachable.induct)
  case start
  have "\<And>p. countOf p \<lparr> count1 = 0, count2 = 0 \<rparr> = 0" by (case_tac p) simp_all
  then show ?case by (simp add: initial_def countsOk_def)
next
  case (event s e)
  then show ?case by (simp add: step_counts)
qed

lemma reachable_run: "reachable s \<Longrightarrow> allEnabled es s \<Longrightarrow> reachable (run es s)"
  by (induction es arbitrary: s) (auto intro: reachable.event)

subsection \<open>The loop of checkWinner\<close>

lemma checkLines_find:
  "checkLines bd ls =
     (case find (\<lambda>l. \<exists>q. winsLine bd l q) ls of
        None \<Rightarrow> None
      | Some (a, b, c) \<Rightarrow> owner bd a)"
proof (induction ls)
  case Nil
  show ?case by simp
next
  case (Cons l ls)
  obtain a b c where l: "l = (a, b, c)" by (cases l) auto
  show ?case using Cons
    by (auto simp: l owner_def split: option.splits)
qed

lemma checkLines_Some:
  "checkLines bd ls = Some p \<longleftrightarrow>
     (\<exists>k<length ls. winsLine bd (ls ! k) p \<and> (\<forall>j<k. \<forall>q. \<not> winsLine bd (ls ! j) q))"
proof
  assume h: "checkLines bd ls = Some p"
  then obtain l where f: "find (\<lambda>l. \<exists>q. winsLine bd l q) ls = Some l"
    by (auto simp: checkLines_find split: option.splits)
  obtain a b c where l: "l = (a, b, c)" by (cases l) auto
  from h f l have o: "owner bd a = Some p" by (simp add: checkLines_find)
  from f obtain k where k: "k < length ls" "\<exists>q. winsLine bd (ls ! k) q" "l = ls ! k"
      "\<forall>j<k. \<not> (\<exists>q. winsLine bd (ls ! j) q)"
    by (auto simp: find_Some_iff)
  from k(2,3) l obtain q where "winsLine bd (a, b, c) q" by metis
  with o have "winsLine bd (a, b, c) p" by simp
  with k(3) l have "winsLine bd (ls ! k) p" by simp
  with k show "\<exists>k<length ls. winsLine bd (ls ! k) p \<and> (\<forall>j<k. \<forall>q. \<not> winsLine bd (ls ! j) q)"
    by blast
next
  assume "\<exists>k<length ls. winsLine bd (ls ! k) p \<and> (\<forall>j<k. \<forall>q. \<not> winsLine bd (ls ! j) q)"
  then obtain k where k: "k < length ls" "winsLine bd (ls ! k) p"
      "\<forall>j<k. \<forall>q. \<not> winsLine bd (ls ! j) q" by blast
  then have "find (\<lambda>l. \<exists>q. winsLine bd l q) ls = Some (ls ! k)"
    by (auto simp: find_Some_iff)
  moreover obtain a b c where l: "ls ! k = (a, b, c)" by (cases "ls ! k") auto
  ultimately show "checkLines bd ls = Some p" using k(2)
    by (simp add: checkLines_find)
qed

lemma checkLines_None:
  "checkLines bd ls = None \<longleftrightarrow> (\<forall>k<length ls. \<forall>q. \<not> winsLine bd (ls ! k) q)"
proof -
  have "checkLines bd ls = None \<longleftrightarrow> (\<forall>p. checkLines bd ls \<noteq> Some p)" by auto
  also have "\<dots> \<longleftrightarrow> (\<forall>k<length ls. \<forall>q. \<not> winsLine bd (ls ! k) q)"
  proof
    assume a: "\<forall>p. checkLines bd ls \<noteq> Some p"
    show "\<forall>k<length ls. \<forall>q. \<not> winsLine bd (ls ! k) q"
    proof (intro allI impI notI)
      fix k q assume kq: "k < length ls" "winsLine bd (ls ! k) q"
      then have "find (\<lambda>l. \<exists>q. winsLine bd l q) ls \<noteq> None"
        unfolding find_None_iff using nth_mem [of k ls] by blast
      then obtain l where f: "find (\<lambda>l. \<exists>q. winsLine bd l q) ls = Some l" by auto
      then have "\<exists>q. winsLine bd l q" by (auto simp: find_Some_iff)
      then obtain a b c q' where "l = (a, b, c)" "owner bd a = Some q'" by (cases l) auto
      with f have "checkLines bd ls = Some q'" by (simp add: checkLines_find)
      with a show False by simp
    qed
  next
    assume "\<forall>k<length ls. \<forall>q. \<not> winsLine bd (ls ! k) q"
    then show "\<forall>p. checkLines bd ls \<noteq> Some p" by (auto simp: checkLines_Some)
  qed
  finally show ?thesis .
qed

subsection \<open>The aging pass against its description\<close>

lemma age_board_spec:
  "positiveLifetimes bd \<Longrightarrow> clearExpired (map ageCell bd) = spec_remove (spec_decrement bd)"
proof (induction bd)
  case Nil
  show ?case by (simp add: clearExpired_def spec_remove_def spec_decrement_def)
next
  case (Cons c bd)
  then have "positiveLifetimes bd" by (simp add: positiveLifetimes_def)
  with Cons.IH have "clearExpired (map ageCell bd) = spec_remove (spec_decrement bd)" .
  moreover from Cons.prems
  have "(if expired (ageCell c) then None else ageCell c)
        = (case map_option (\<lambda>cell. cell\<lparr>turnsLeft := turnsLeft cell - 1\<rparr>) c of
             None \<Rightarrow> None | Some cell \<Rightarrow> if turnsLeft cell = 0 then None else Some cell)"
    by (cases c) (auto simp: positiveLifetimes_def)
  ultimately show ?case
    by (simp add: clearExpired_def spec_remove_def spec_decrement_def)
qed

lemma vanishedCount_removed:
  "positiveLifetimes bd \<Longrightarrow>
   vanishedCount (map ageCell bd) bd = removedCount bd (clearExpired (map ageCell bd))"
proof (induction bd)
  case Nil
  show ?case by (simp add: vanishedCount_def removedCount_def clearExpired_def)
next
  case (Cons c bd)
  then have "positiveLifetimes bd" by (simp add: positiveLifetimes_def)
  with Cons.IH have "vanishedCount (map ageCell bd) bd
      = removedCount bd (clearExpired (map ageCell bd))" .
  then show ?case using Cons.prems
    by (cases c) (auto simp: vanishedCount_def removedCount_def clearExpired_def positiveLifetimes_def)
qed

lemma reachable_positive: "reachable s \<Longrightarrow> positiveLifetimes (board s)"
  using reachable_lifetimes [of s]
  by (auto simp: positiveLifetimes_def lifetimesOk_def list_all_iff split: option.splits)

lemma ageEmojis_vanished:
  "vanishedEmojis (gameStats (ageEmojis s))
     = vanishedEmojis (gameStats s) + vanishedCount (map ageCell (board s)) (board s)"
  by (simp add: ageEmojis_def Let_def)

text \<open>
  The guard \<open>turnsLeft > 0\<close> of line 107 never fails on a live cell with a positive
  lifetime, and then the pass is the one described.
\<close>

lemma aging_pass_positive:
  assumes "positiveLifetimes (board s)"
  shows "board (ageEmojis s) = fst (spec_ageCells (board s))
     \<and> vanishedEmojis (gameStats (ageEmojis s))
         = vanishedEmojis (gameStats s) + snd (spec_ageCells (board s))
     \<and> snd (spec_ageCells (board s)) = removedCount (board s) (board (ageEmojis s))
     \<and> (\<forall>i<length (board s). \<forall>cell. board s ! i = Some cell \<longrightarrow>
          board (ageEmojis s) ! i
            = (if turnsLeft cell - 1 = 0 then None
               else Some (cell\<lparr>turnsLeft := turnsLeft cell - 1\<rparr>)))"
proof -
  have b: "board (ageEmojis s) = fst (spec_ageCells (board s))"
    using age_board_spec [OF assms] by (simp add: spec_ageCells_def Let_def)
  have n: "snd (spec_ageCells (board s)) = removedCount (board s) (board (ageEmojis s))"
    using b by (simp add: spec_ageCells_def Let_def)
  have v: "vanishedEmojis (gameStats (ageEmojis s))
         = vanishedEmojis (gameStats s) + snd (spec_ageCells (board s))"
    using vanishedCount_removed [OF assms] n by (simp add: ageEmojis_vanished)
  have p: "\<forall>i<length (board s). \<forall>cell. board s ! i = Some cell \<longrightarrow>
          board (ageEmojis s) ! i
            = (if turnsLeft cell - 1 = 0 then None
               else Some (cell\<lparr>turnsLeft := turnsLeft cell - 1\<rparr>))"
  proof (intro allI impI)
    fix i cell assume i: "i < length (board s)" and c: "board s ! i = Some cell"
    then have "Some cell \<in> set (board s)" by (metis nth_mem)
    with assms have "0 < turnsLeft cell" by (auto simp: positiveLifetimes_def list_all_iff)
    with i c show "board (ageEmojis s) ! i
            = (if turnsLeft cell - 1 = 0 then None
               else Some (cell\<lparr>turnsLeft := turnsLeft cell - 1\<rparr>))"
      by (simp add: clearExpired_nth)
  qed
  from b v n p show ?thesis by blast
qed

lemma lifetimesOk_nth:
  "lifetimesOk bd \<Longrightarrow> i < length bd \<Longrightarrow> bd ! i = Some cell \<Longrightarrow>
   1 \<le> turnsLeft cell \<and> turnsLeft cell \<le> 3"
  unfolding lifetimesOk_def by (metis nth_mem)

subsection \<open>Fewer than three live cells cannot win\<close>

lemma owner_live:
  "owner bd i = Some p \<Longrightarrow> i < length bd \<and> map_option player (bd ! i) = Some p"
  by (auto simp: owner_def slot_def split: if_splits)

lemma three_live:
  assumes "owner bd a = Some p" "owner bd b = Some p" "owner bd c = Some p"
    and d: "a \<noteq> b" "b \<noteq> c" "a \<noteq> c"
  shows "3 \<le> liveCount p bd"
proof -
  let ?S = "{i. i < length bd \<and> map_option player (bd ! i) = Some p}"
  have "{a, b, c} \<subseteq> ?S"
    using owner_live [OF assms(1)] owner_live [OF assms(2)] owner_live [OF assms(3)] by simp
  moreover have "finite ?S" by simp
  ultimately have "card {a, b, c} \<le> card ?S" by (rule card_mono [rotated])
  moreover have "card {a, b, c} = 3" using d by simp
  moreover have "liveCount p bd = card ?S"
    by (simp add: liveCount_def length_filter_conv_card)
  ultimately show ?thesis by simp
qed

lemma winsLine_three_live:
  assumes "l \<in> set lines" "winsLine bd l p" shows "3 \<le> liveCount p bd"
proof -
  obtain a b c where l: "l = (a, b, c)" by (cases l) auto
  with assms(1) have d: "a \<noteq> b" "b \<noteq> c" "a \<noteq> c" by (auto simp: lines_def)
  from assms(2) l have "owner bd a = Some p" "owner bd b = Some p" "owner bd c = Some p"
    by simp_all
  then show ?thesis using d by (rule three_live)
qed

lemma no_winner_few:
  assumes "\<And>p. liveCount p bd \<le> 2" shows "checkWinner bd = None"
proof -
  have "\<forall>k<length lines. \<forall>q. \<not> winsLine bd (lines ! k) q"
  proof (intro allI impI notI)
    fix k q assume "k < length lines" "winsLine bd (lines ! k) q"
    then have "3 \<le> liveCount q bd" using winsLine_three_live [OF nth_mem] by blast
    with assms [of q] show False by simp
  qed
  then show ?thesis by (simp add: checkWinner_def checkLines_None)
qed

lemma phase_few:
  assumes "phase s n1 n2 cur pend" "n1 \<le> 2" "n2 \<le> 2"
  shows "liveCount p (board s) \<le> 2"
proof -
  from assms(1) have "liveCount p (board s) \<le> countOf p (emojiCounts s)"
    by (simp add: phase_def countsOk_def)
  moreover from assms have "countOf p (emojiCounts s) \<le> 2"
    by (cases p) (simp_all add: phase_def)
  ultimately show ?thesis by simp
qed

subsection \<open>Steps of a game in progress\<close>

lemma run_append: "run (xs @ ys) s = run ys (run xs s)"
  by (induction xs arbitrary: s) simp_all

lemma alive_slot: "alive s i p t \<Longrightarrow> slot (board s) i \<noteq> None"
  by (auto simp: alive_def split: option.splits)

subsection \<open>One aging timer inside the scenario\<close>

lemma fireAging_alive:
  assumes "alive s i p t" "2 \<le> t" shows "alive (fireAging s) i p (t - 1)"
  using assms by (auto simp: alive_def slot_def clearExpired_nth split: option.splits if_splits)

lemma fireAging_empty:
  assumes "slot (board s) i = None" shows "slot (board (fireAging s)) i = None"
  using assms by (auto simp: slot_def clearExpired_nth split: if_splits)

lemma few_after_aging:
  assumes ph: "phase s n1 n2 cur pend" and n: "n1 \<le> 2" "n2 \<le> 2"
  shows "liveCount p (board (fireAging s)) \<le> 2"
proof -
  have "liveCount p (board (fireAging s)) \<le> liveCount p (board s)"
    using liveCount_age [of p "board s"] by simp
  also have "\<dots> \<le> 2" using phase_few [OF ph n] .
  finally show ?thesis .
qed

lemma not_all_empty:
  assumes "slot bd k \<noteq> None" shows "\<not> list_all (\<lambda>cell. cell = None) bd"
proof -
  from assms have k: "k < length bd" and v: "bd ! k \<noteq> None"
    by (simp_all add: slot_def split: if_splits)
  from k have "bd ! k \<in> set bd" by simp
  with v show ?thesis by (auto simp: list_all_iff)
qed

lemma useEffect_idle:
  assumes "checkWinner (board s) = None" "\<not> list_all (\<lambda>cell. cell = None) (board s)"
  shows "useEffect s = s"
  using assms by (simp add: useEffect_def)

lemma tick_step:
  assumes ph: "phase s n1 n2 cur pend" and pend: "0 < pend" and n: "n1 \<le> 2" "n2 \<le> 2"
    and anchor: "alive s k q u" "2 \<le> u"
  shows "step AgingTimer s = fireAging s" and "phase (fireAging s) n1 n2 cur (pend - 1)"
proof -
  have nw: "checkWinner (board (fireAging s)) = None"
    by (rule no_winner_few) (rule few_after_aging [OF ph n])
  have "slot (board (fireAging s)) k \<noteq> None"
    using fireAging_alive [OF anchor] by (rule alive_slot)
  then have ne: "\<not> list_all (\<lambda>cell. cell = None) (board (fireAging s))"
    by (rule not_all_empty)
  have idle: "useEffect (fireAging s) = fireAging s"
    using nw ne by (rule useEffect_idle)
  from ph pend have "pendingAging s \<noteq> 0" by (simp add: phase_def)
  then show "step AgingTimer s = fireAging s" by (simp add: idle)
  from ph have "countsOk (fireAging s)" by (simp add: phase_def fireAging_counts)
  with ph show "phase (fireAging s) n1 n2 cur (pend - 1)"
    by (simp add: phase_def)
qed

lemma ticks_Suc: "run (ticks (Suc a)) s = run (ticks a) (step AgingTimer s)"
  by (simp only: ticks_def replicate_Suc run.simps)

lemma ticks_run:
  assumes "phase s n1 n2 cur pend" "a \<le> pend" "n1 \<le> 2" "n2 \<le> 2"
    and "alive s k q u" "int a < u"
  shows "phase (run (ticks a) s) n1 n2 cur (pend - a)
     \<and> (\<forall>i p t. alive s i p t \<and> int a < t \<longrightarrow> alive (run (ticks a) s) i p (t - int a))
     \<and> (\<forall>i. slot (board s) i = None \<longrightarrow> slot (board (run (ticks a) s)) i = None)"
  using assms
proof (induction a arbitrary: s pend u)
  case 0
  then show ?case by (simp add: ticks_def)
next
  case (Suc a)
  from Suc.prems have pend: "0 < pend" and u: "2 \<le> u" by simp_all
  note t = tick_step [OF Suc.prems(1) pend Suc.prems(3,4) Suc.prems(5) u]
  have r: "run (ticks (Suc a)) s = run (ticks a) (fireAging s)"
    by (simp only: ticks_Suc t(1))
  have a': "alive (fireAging s) k q (u - 1)" using Suc.prems(5) u by (rule fireAging_alive)
  from Suc.prems have le: "a \<le> pend - 1" and lt: "int a < u - 1" by simp_all
  note ih = Suc.IH [OF t(2) le Suc.prems(3,4) a' lt]
  have p1: "phase (run (ticks a) (fireAging s)) n1 n2 cur (pend - Suc a)"
    using ih by simp
  have p2: "alive (run (ticks a) (fireAging s)) i p (t - int (Suc a))"
    if h: "alive s i p t \<and> int (Suc a) < t" for i p t
  proof -
    from h have "alive (fireAging s) i p (t - 1)" by (intro fireAging_alive) simp_all
    moreover from h have "int a < t - 1" by simp
    ultimately have "alive (run (ticks a) (fireAging s)) i p (t - 1 - int a)"
      using ih by blast
    moreover have "t - 1 - int a = t - int (Suc a)" by simp
    ultimately show ?thesis by simp
  qed
  have p3: "slot (board (run (ticks a) (fireAging s))) i = None"
    if h: "slot (board s) i = None" for i
  proof -
    from h have "slot (board (fireAging s)) i = None" by (rule fireAging_empty)
    with ih show ?thesis by blast
  qed
  from p1 p2 p3 show ?case unfolding r by blast
qed

lemma slot_update:
  "i < length bd \<Longrightarrow> slot (bd[i := v]) k = (if k = i then v else slot bd k)"
  by (simp add: slot_def)

lemma not_full:
  assumes "m < length bd" "bd ! m = None" shows "\<not> list_all (\<lambda>cell. cell \<noteq> None) bd"
proof -
  from assms(1) have "bd ! m \<in> set bd" by simp
  with assms(2) show ?thesis by (auto simp: list_all_iff)
qed

lemma click_step:
  assumes ph: "phase s n1 n2 cur pend" and i: "i < 9" and e: "slot (board s) i = None"
    and c: "countOf cur (emojiCounts s) \<le> 1" and n: "n1 \<le> 2" "n2 \<le> 2"
    and spare: "slot (board s) m = None" "m \<noteq> i" "m < 9"
  shows "phase (step (Click i g st) s)
           (if cur = P1 then n1 + 1 else n1) (if cur = P2 then n2 + 1 else n2)
           (otherPlayer cur) (pend + 1)"
    and "board (step (Click i g st) s) = (board s)[i := Some (newCell cur g st)]"
proof -
  let ?nb = "(board s)[i := Some (newCell cur g st)]"
  from ph have len: "length (board s) = 9" and pl: "gameState s = Playing"
    and cu: "currentPlayer s = cur" and ok: "countsOk s" by (simp_all add: phase_def)
  from i len have il: "i < length (board s)" by simp
  from e pl c cu have nr: "\<not> rejected i s"
    by (simp add: rejected_def MAX_EMOJIS_PER_PLAYER_def)
  from e il have bi: "board s ! i = None" by (simp add: slot_def)
  have few: "liveCount p ?nb \<le> 2" for p
  proof -
    from ok have "liveCount p (board s) \<le> countOf p (emojiCounts s)"
      by (simp add: countsOk_def)
    moreover from ph n have "countOf p (emojiCounts s) \<le> 2"
      by (cases p) (simp_all add: phase_def)
    ultimately show ?thesis using c
      by (auto simp: liveCount_place [OF il bi] newCell_def)
  qed
  have nw: "checkWinner ?nb = None" using few by (rule no_winner_few)
  from spare len have "m < length ?nb" "?nb ! m = None" by (simp_all add: slot_def)
  then have nf: "\<not> list_all (\<lambda>cell. cell \<noteq> None) ?nb" by (rule not_full)
  have hc: "handleCellClick i g st s =
      s\<lparr>board := ?nb, emojiCounts := countInc cur (emojiCounts s),
        gameStats := (gameStats s)\<lparr>moves := moves (gameStats s) + 1\<rparr>,
        currentPlayer := otherPlayer cur, pendingAging := pendingAging s + 1\<rparr>"
    using nr nw nf il cu by (simp add: handleCellClick_def setSlot_def Let_def)
  from il have "slot ?nb i \<noteq> None" by (simp add: slot_update)
  then have ne: "\<not> list_all (\<lambda>cell. cell = None) ?nb" by (rule not_all_empty)
  have "useEffect (handleCellClick i g st s) = handleCellClick i g st s"
    by (rule useEffect_idle) (simp_all add: hc nw ne)
  with nr have st: "step (Click i g st) s = handleCellClick i g st s" by simp
  show "board (step (Click i g st) s) = ?nb" unfolding st by (simp add: hc)
  have "countsOk (step (Click i g st) s)" using il ok by (rule click_counts)
  with ph show "phase (step (Click i g st) s)
           (if cur = P1 then n1 + 1 else n1) (if cur = P2 then n2 + 1 else n2)
           (otherPlayer cur) (pend + 1)"
    unfolding phase_def st by (cases cur) (simp_all add: hc)
qed

lemma final_click:
  assumes ph: "phase s n1 n2 P1 pend" and c: "n1 < 6"
    and a: "alive s 0 P1 t0" "alive s 1 P1 t1" and e: "slot (board s) 2 = None"
  shows "gameState (step (Click 2 g st) s) = Won"
    and "winner (step (Click 2 g st) s) = Some P1"
    and "checkWinner (board (step (Click 2 g st) s)) = Some P1"
proof -
  let ?nb = "(board s)[2 := Some (newCell P1 g st)]"
  from ph have len: "length (board s) = 9" and pl: "gameState s = Playing"
    and cu: "currentPlayer s = P1" and c1: "count1 (emojiCounts s) = n1"
    by (simp_all add: phase_def)
  from e pl c cu c1 have nr: "\<not> rejected 2 s"
    by (simp add: rejected_def MAX_EMOJIS_PER_PLAYER_def)
  from a len obtain x y where xy: "slot ?nb 0 = Some x" "player x = P1"
      "slot ?nb 1 = Some y" "player y = P1"
    by (auto simp: alive_def slot_def split: option.splits)
  from len have z: "slot ?nb 2 = Some (newCell P1 g st)" by (simp add: slot_def)
  have w: "checkWinner ?nb = Some P1"
    using xy z by (simp add: checkWinner_def lines_def newCell_def)
  have hc: "handleCellClick 2 g st s =
      s\<lparr>board := ?nb, emojiCounts := countInc P1 (emojiCounts s),
        gameStats := (gameStats s)\<lparr>moves := moves (gameStats s) + 1\<rparr>,
        winner := Some P1, gameState := Won\<rparr>"
    using nr w len cu by (simp add: handleCellClick_def setSlot_def Let_def)
  have st: "step (Click 2 g st) s = handleCellClick 2 g st s"
    using nr by (simp add: hc useEffect_not_playing)
  show "gameState (step (Click 2 g st) s) = Won" unfolding st by (simp add: hc)
  show "winner (step (Click 2 g st) s) = Some P1" unfolding st by (simp add: hc)
  show "checkWinner (board (step (Click 2 g st) s)) = Some P1" unfolding st by (simp add: hc w)
qed

lemma phase_initial: "phase initial 0 0 P1 0"
  using reachable_counts [OF reachable.start] by (simp add: phase_def) (simp add: initial_def)

lemma initial_empty: "slot (board initial) k = None"
  by (simp add: slot_def initial_def)

lemma placed_alive:
  assumes "board s' = (board s)[i := Some (newCell p g st)]" "i < length (board s)"
  shows "alive s' i p 3"
  using assms by (simp add: alive_def slot_update newCell_def BLINK_DURATION_def)

lemma placed_keeps:
  assumes "board s' = (board s)[i := Some c]" "i < length (board s)" "k \<noteq> i"
  shows "slot (board s') k = slot (board s) k" and "alive s' k p t = alive s k p t"
  using assms by (simp_all add: alive_def slot_update)

lemma click_stage:
  assumes ph: "phase s n1 n2 cur pend" and i: "i < 9" "i \<noteq> 2" "i \<notin> X" and x: "2 \<notin> X"
    and em: "\<forall>k. k \<notin> X \<longrightarrow> slot (board s) k = None"
    and c: "countOf cur (emojiCounts s) \<le> 1" and n: "n1 \<le> 2" "n2 \<le> 2"
  shows "phase (step (Click i g st) s)
           (if cur = P1 then n1 + 1 else n1) (if cur = P2 then n2 + 1 else n2)
           (otherPlayer cur) (pend + 1)"
    and "alive (step (Click i g st) s) i cur 3"
    and "\<forall>k p t. k \<noteq> i \<longrightarrow> alive s k p t \<longrightarrow> alive (step (Click i g st) s) k p t"
    and "\<forall>k. k \<notin> insert i X \<longrightarrow> slot (board (step (Click i g st) s)) k = None"
proof -
  from em i(3) have e: "slot (board s) i = None" by simp
  from em x have sp: "slot (board s) 2 = None" by simp
  have two: "(2::nat) \<noteq> i" "(2::nat) < 9" using i(2) by simp_all
  note cs = click_step [OF ph i(1) e c n sp two, of g st]
  from ph i(1) have il: "i < length (board s)" by (simp add: phase_def)
  show "phase (step (Click i g st) s)
           (if cur = P1 then n1 + 1 else n1) (if cur = P2 then n2 + 1 else n2)
           (otherPlayer cur) (pend + 1)" by (rule cs(1))
  show "alive (step (Click i g st) s) i cur 3" using cs(2) il by (rule placed_alive)
  show "\<forall>k p t. k \<noteq> i \<longrightarrow> alive s k p t \<longrightarrow> alive (step (Click i g st) s) k p t"
    using placed_keeps(2) [OF cs(2) il] by simp
  show "\<forall>k. k \<notin> insert i X \<longrightarrow> slot (board (step (Click i g st) s)) k = None"
    using placed_keeps(1) [OF cs(2) il] em by simp
qed

subsection \<open>Placement counters along a run\<close>

lemma c10_value:
  "c10_state =
     \<lparr>board =
        [None, None,
         Some \<lparr>emoji = ''dizzy'', player = P1, turnsLeft = 1, id_str = ''1-t11''\<rparr>,
         Some \<lparr>emoji = ''crescent moon'', player = P2, turnsLeft = 2, id_str = ''2-t12''\<rparr>,
         None, None, None, None, None],
      currentPlayer = P1, gameState = Playing, winner = None,
      emojiCounts = \<lparr>count1 = 6, count2 = 6\<rparr>,
      gameStats = \<lparr>moves = 12, vanishedEmojis = 10\<rparr>, pendingAging = 0\<rparr>"
  by code_simp

lemma step_count_mono:
  assumes "e \<noteq> Reset" shows "countOf p (emojiCounts s) \<le> countOf p (emojiCounts (step e s))"
proof (cases e)
  case (Click index glyph stamp)
  then show ?thesis by (simp add: handleCellClick_fields countOf_countInc)
next
  case AgingTimer
  then show ?thesis by simp
next
  case Reset
  with assms show ?thesis by simp
qed

lemma run_count_mono:
  "Reset \<notin> set es \<Longrightarrow> countOf p (emojiCounts s) \<le> countOf p (emojiCounts (run es s))"
proof (induction es arbitrary: s)
  case Nil
  show ?case by simp
next
  case (Cons e es)
  then have "e \<noteq> Reset" "Reset \<notin> set es" by auto
  from step_count_mono [OF this(1), of p s] Cons.IH [OF this(2), of "step e s"]
  show ?case by simp
qed

lemma full_rejected:
  assumes "MAX_EMOJIS_PER_PLAYER \<le> countOf P1 (emojiCounts s)"
    "MAX_EMOJIS_PER_PLAYER \<le> countOf P2 (emojiCounts s)"
  shows "rejected index s"
  using assms by (cases "currentPlayer s") (simp_all add: rejected_def)

lemma full_step:
  assumes "e \<noteq> Reset" "MAX_EMOJIS_PER_PLAYER \<le> countOf P1 (emojiCounts s)"
    "MAX_EMOJIS_PER_PLAYER \<le> countOf P2 (emojiCounts s)"
  shows "emojiCounts (step e s) = emojiCounts s"
proof (cases e)
  case (Click index glyph stamp)
  with full_rejected [OF assms(2,3)] show ?thesis by simp
next
  case AgingTimer
  then show ?thesis by simp
next
  case Reset
  with assms show ?thesis by simp
qed

lemma full_run:
  "Reset \<notin> set es \<Longrightarrow> MAX_EMOJIS_PER_PLAYER \<le> countOf P1 (emojiCounts s) \<Longrightarrow>
   MAX_EMOJIS_PER_PLAYER \<le> countOf P2 (emojiCounts s) \<Longrightarrow>
   emojiCounts (run es s) = emojiCounts s"
proof (induction es arbitrary: s)
  case Nil
  show ?case by simp
next
  case (Cons e es)
  then have e: "e \<noteq> Reset" and es: "Reset \<notin> set es" by auto
  note st = full_step [OF e Cons.prems(2,3)]
  from Cons.IH [OF es, of "step e s"] Cons.prems(2,3) st show ?case by simp
qed

section \<open>The claims\<close>

subsection \<open>Rejected moves\<close>

text \<open>
  C3. A move attempt on an occupied cell, or while the game is not in Playing, or when
  the placement counter of the active player has reached \<open>MAX_EMOJIS_PER_PLAYER\<close>,
  changes nothing: the handler returns the state it was given (board, both counters,
  active player, game state, statistics, pending timers), and since nothing was set
  there is no new render and no effect.
\<close>

theorem rejected_click_changes_nothing:
  assumes "slot (board s) index \<noteq> None \<or> gameState s \<noteq> Playing
           \<or> countOf (currentPlayer s) (emojiCounts s) \<ge> MAX_EMOJIS_PER_PLAYER"
  shows "handleCellClick index glyph stamp s = s \<and> step (Click index glyph stamp) s = s"
  using assms by (simp add: handleCellClick_def rejected_def)

theorem rejected_click_changes_nothing_witness:
  "slot (board c3_state) 4 \<noteq> None
   \<and> handleCellClick 4 2 ''t2'' c3_state = c3_state
   \<and> step (Click 4 2 ''t2'') c3_state = c3_state"
proof -
  have h: "slot (board c3_state) 4 \<noteq> None"
    by code_simp
  then have "slot (board c3_state) 4 \<noteq> None \<or> gameState c3_state \<noteq> Playing
      \<or> countOf (currentPlayer c3_state) (emojiCounts c3_state) \<ge> MAX_EMOJIS_PER_PLAYER"
    by simp
  from rejected_click_changes_nothing [OF this, of 2 "''t2''"] h show ?thesis by simp
qed

subsection \<open>Live cells per player\<close>

text \<open>
  C4. In every state reached from the initial state by clicks, aging timers and resets,
  the number of live cells of a player on the board is at most
  \<open>MAX_EMOJIS_PER_PLAYER\<close> = 6.
\<close>

theorem live_cells_bounded:
  assumes "reachable s"
  shows "liveCount p (board s) \<le> MAX_EMOJIS_PER_PLAYER"
  using reachable_counts [OF assms] unfolding countsOk_def
  by (meson le_trans)

theorem live_cells_bounded_witness:
  "reachable (run c4_events initial)
   \<and> liveCount P1 (board (run c4_events initial)) = 2
   \<and> liveCount P1 (board (run c4_events initial)) \<le> MAX_EMOJIS_PER_PLAYER"
proof -
  have e: "allEnabled c4_events initial"
    by code_simp
  have r: "reachable (run c4_events initial)"
    by (rule reachable_run [OF reachable.start e])
  have "liveCount P1 (board (run c4_events initial)) = 2"
    by code_simp
  with r live_cells_bounded [OF r, of P1] show ?thesis by simp
qed

subsection \<open>The winner check\<close>

text \<open>
  C8. \<open>checkWinner\<close> goes through exactly eight triples, the three rows, then the
  three columns, then the two diagonals. It returns \<open>p\<close> exactly when some triple is
  held by \<open>p\<close> (three live cells of \<open>p\<close>) and no earlier triple in that order is held
  by anyone, and it returns no winner exactly when no triple is held by anyone.
\<close>

theorem checkWinner_first_triple:
  "lines = rows @ columns @ diagonals \<and> length lines = 8
   \<and> (checkWinner bd = Some p \<longleftrightarrow>
        (\<exists>k<8. winsLine bd (lines ! k) p \<and> (\<forall>j<k. \<forall>q. \<not> winsLine bd (lines ! j) q)))
   \<and> (checkWinner bd = None \<longleftrightarrow> (\<forall>k<8. \<forall>q. \<not> winsLine bd (lines ! k) q))"
proof -
  have l: "length lines = 8" by (simp add: lines_def)
  have "lines = rows @ columns @ diagonals"
    by (simp add: lines_def rows_def columns_def diagonals_def)
  moreover note l
  moreover have "checkWinner bd = Some p \<longleftrightarrow>
        (\<exists>k<8. winsLine bd (lines ! k) p \<and> (\<forall>j<k. \<forall>q. \<not> winsLine bd (lines ! j) q))"
    using checkLines_Some [of bd lines p] by (simp only: checkWinner_def l)
  moreover have "checkWinner bd = None \<longleftrightarrow> (\<forall>k<8. \<forall>q. \<not> winsLine bd (lines ! k) q)"
    using checkLines_None [of bd lines] by (simp only: checkWinner_def l)
  ultimately show ?thesis by blast
qed

theorem checkWinner_first_triple_witness:
  "checkWinner c8_board = Some P2
   \<and> (\<exists>k<8. winsLine c8_board (lines ! k) P2
          \<and> (\<forall>j<k. \<forall>q. \<not> winsLine c8_board (lines ! j) q))
   \<and> winsLine c8_board (lines ! 1) P1"
proof -
  have w: "checkWinner c8_board = Some P2"
    by code_simp
  have "winsLine c8_board (lines ! 1) P1"
    by code_simp
  with w checkWinner_first_triple [of c8_board P2] show ?thesis by blast
qed

subsection \<open>Aging a cell on its last turn\<close>

text \<open>
  C9. On every board, a cell with remaining lifetime 1 is removed by one aging pass,
  and its slot is still empty after a second aging pass.
\<close>

theorem aging_twice_lifetime_one:
  assumes "i < length (board s)" and "board s ! i = Some cell" and "turnsLeft cell = 1"
  shows "board (ageEmojis s) ! i = None \<and> board (ageEmojis (ageEmojis s)) ! i = None"
  using assms by (simp add: clearExpired_def)

theorem aging_twice_lifetime_one_witness:
  "(0::nat) < length (board c9_state)
   \<and> board c9_state ! 0 = Some ((newCell P1 0 ''t1'')\<lparr>turnsLeft := 1\<rparr>)
   \<and> board (ageEmojis c9_state) ! 0 = None
   \<and> board (ageEmojis (ageEmojis c9_state)) ! 0 = None"
proof -
  have b: "board c9_state ! 0 = Some ((newCell P1 0 ''t1'')\<lparr>turnsLeft := 1\<rparr>)"
    by code_simp
  have l: "0 < length (board c9_state)"
    by code_simp
  have t: "turnsLeft ((newCell P1 0 ''t1'')\<lparr>turnsLeft := 1\<rparr>) = 1" by simp
  from aging_twice_lifetime_one [OF l b t] l b show ?thesis by simp
qed

subsection \<open>One aging pass\<close>

text \<open>
  C5. On every board the component can hold, one aging pass lowers the remaining
  lifetime of every live cell by exactly 1 and then removes exactly the cells whose
  lifetime has reached 0; the number it adds to the vanished-emojis statistic is the
  number of cells removed by that pass; a cell whose lifetime stays positive remains on
  the board, with its lifetime lowered by 1.
\<close>

theorem aging_pass_matches_spec:
  assumes "reachable s"
  shows "board (ageEmojis s) = fst (spec_ageCells (board s))
     \<and> vanishedEmojis (gameStats (ageEmojis s))
         = vanishedEmojis (gameStats s) + snd (spec_ageCells (board s))
     \<and> snd (spec_ageCells (board s)) = removedCount (board s) (board (ageEmojis s))
     \<and> (\<forall>i<length (board s). \<forall>cell. board s ! i = Some cell \<longrightarrow>
          board (ageEmojis s) ! i
            = (if turnsLeft cell - 1 = 0 then None
               else Some (cell\<lparr>turnsLeft := turnsLeft cell - 1\<rparr>)))"
  using assms by (intro aging_pass_positive reachable_positive)

theorem aging_pass_matches_spec_witness:
  "reachable c5_state
   \<and> board (ageEmojis c5_state) = fst (spec_ageCells (board c5_state))
   \<and> board (ageEmojis c5_state) = replicate 9 None
   \<and> snd (spec_ageCells (board c5_state)) = 3
   \<and> vanishedEmojis (gameStats (ageEmojis c5_state)) = 3"
proof -
  have en: "allEnabled
      [Click 0 0 ''t1'', Click 4 0 ''t2'', Click 8 0 ''t3'', AgingTimer, AgingTimer] initial"
    by code_simp
  have r: "reachable c5_state"
    unfolding c5_state_def by (rule reachable_run [OF reachable.start en])
  have e: "fst (spec_ageCells (board c5_state)) = replicate 9 None"
    "snd (spec_ageCells (board c5_state)) = 3"
    "vanishedEmojis (gameStats c5_state) = 0"
    by code_simp+
  from aging_pass_matches_spec [OF r] r e show ?thesis by simp
qed

subsection \<open>Lifetimes stay in range\<close>

text \<open>
  C6. In every reachable state the remaining lifetime of every live cell lies in
  [0, \<open>BLINK_DURATION\<close>]; an accepted move creates its cell with lifetime
  \<open>BLINK_DURATION\<close>; an aging pass removes a live cell exactly when its lifetime
  reaches 0 and otherwise leaves it with a positive lifetime, so no lifetime is ever
  negative.
\<close>

theorem lifetime_in_range:
  assumes "reachable s"
  shows "(\<forall>i<length (board s). \<forall>cell. board s ! i = Some cell \<longrightarrow>
            0 \<le> turnsLeft cell \<and> turnsLeft cell \<le> BLINK_DURATION)
     \<and> (\<forall>index glyph stamp. index < length (board s) \<and> \<not> rejected index s \<longrightarrow>
            (\<exists>cell. board (handleCellClick index glyph stamp s) ! index = Some cell
                    \<and> turnsLeft cell = BLINK_DURATION))
     \<and> (\<forall>i<length (board s). \<forall>cell. board s ! i = Some cell \<longrightarrow>
            (board (ageEmojis s) ! i = None \<longleftrightarrow> turnsLeft cell - 1 = 0)
            \<and> (turnsLeft cell - 1 \<noteq> 0 \<longrightarrow>
                 board (ageEmojis s) ! i = Some (cell\<lparr>turnsLeft := turnsLeft cell - 1\<rparr>)
                 \<and> 0 < turnsLeft cell - 1))"
proof -
  from assms have ok: "lifetimesOk (board s)" by (rule reachable_lifetimes)
  have a: "\<forall>i<length (board s). \<forall>cell. board s ! i = Some cell \<longrightarrow>
            0 \<le> turnsLeft cell \<and> turnsLeft cell \<le> BLINK_DURATION"
    using lifetimesOk_nth [OF ok] by (fastforce simp: BLINK_DURATION_def)
  have b: "\<forall>index glyph stamp. index < length (board s) \<and> \<not> rejected index s \<longrightarrow>
            (\<exists>cell. board (handleCellClick index glyph stamp s) ! index = Some cell
                    \<and> turnsLeft cell = BLINK_DURATION)"
    by (simp add: handleCellClick_fields setSlot_def newCell_def)
  have c: "\<forall>i<length (board s). \<forall>cell. board s ! i = Some cell \<longrightarrow>
            (board (ageEmojis s) ! i = None \<longleftrightarrow> turnsLeft cell - 1 = 0)
            \<and> (turnsLeft cell - 1 \<noteq> 0 \<longrightarrow>
                 board (ageEmojis s) ! i = Some (cell\<lparr>turnsLeft := turnsLeft cell - 1\<rparr>)
                 \<and> 0 < turnsLeft cell - 1)"
  proof (intro allI impI)
    fix i cell assume i: "i < length (board s)" and c: "board s ! i = Some cell"
    from lifetimesOk_nth [OF ok i c] have "1 \<le> turnsLeft cell" by simp
    with i c show "(board (ageEmojis s) ! i = None \<longleftrightarrow> turnsLeft cell - 1 = 0)
            \<and> (turnsLeft cell - 1 \<noteq> 0 \<longrightarrow>
                 board (ageEmojis s) ! i = Some (cell\<lparr>turnsLeft := turnsLeft cell - 1\<rparr>)
                 \<and> 0 < turnsLeft cell - 1)"
      by (simp add: clearExpired_nth)
  qed
  from a b c show ?thesis by blast
qed

theorem lifetime_in_range_witness:
  "reachable c6_state
   \<and> board c6_state ! 0 = Some ((newCell P1 0 ''t1'')\<lparr>turnsLeft := 1\<rparr>)
   \<and> board c6_state ! 4 = Some ((newCell P2 0 ''t2'')\<lparr>turnsLeft := 1\<rparr>)
   \<and> board (ageEmojis c6_state) ! 0 = None
   \<and> \<not> rejected 8 c6_state
   \<and> (\<exists>cell. board (handleCellClick 8 1 ''t3'' c6_state) ! 8 = Some cell
            \<and> turnsLeft cell = BLINK_DURATION)"
proof -
  have e: "allEnabled [Click 0 0 ''t1'', Click 4 0 ''t2'', AgingTimer, AgingTimer] initial"
    by code_simp
  have r: "reachable c6_state"
    unfolding c6_state_def by (rule reachable_run [OF reachable.start e])
  have f: "board c6_state ! 0 = Some ((newCell P1 0 ''t1'')\<lparr>turnsLeft := 1\<rparr>)"
    "board c6_state ! 4 = Some ((newCell P2 0 ''t2'')\<lparr>turnsLeft := 1\<rparr>)"
    "\<not> rejected 8 c6_state" "length (board c6_state) = 9"
    by code_simp+
  from lifetime_in_range [OF r] r f show ?thesis by simp
qed

subsection \<open>A move that ends the game\<close>

text \<open>
  C7. For every accepted move, the winner check runs on the new board before the draw
  check: if it finds a winner the state is Won with that winner, also when the board is
  full; otherwise, if the board is full, the state is Draw. In both cases the active
  player is not switched, no aging timer is started, and the effect that follows the
  render changes nothing.
\<close>

theorem terminal_move_ends_turn:
  assumes "\<not> rejected index s" and "index < length (board s)"
  shows "board (handleCellClick index glyph stamp s)
           = (board s)[index := Some (newCell (currentPlayer s) glyph stamp)]
     \<and> (\<forall>w. checkWinner (board (handleCellClick index glyph stamp s)) = Some w \<longrightarrow>
            gameState (handleCellClick index glyph stamp s) = Won
          \<and> winner (handleCellClick index glyph stamp s) = Some w
          \<and> currentPlayer (handleCellClick index glyph stamp s) = currentPlayer s
          \<and> pendingAging (handleCellClick index glyph stamp s) = pendingAging s
          \<and> step (Click index glyph stamp) s = handleCellClick index glyph stamp s)
     \<and> (checkWinner (board (handleCellClick index glyph stamp s)) = None
          \<and> list_all (\<lambda>cell. cell \<noteq> None) (board (handleCellClick index glyph stamp s)) \<longrightarrow>
            gameState (handleCellClick index glyph stamp s) = Draw
          \<and> currentPlayer (handleCellClick index glyph stamp s) = currentPlayer s
          \<and> pendingAging (handleCellClick index glyph stamp s) = pendingAging s
          \<and> step (Click index glyph stamp) s = handleCellClick index glyph stamp s)"
  using assms
  by (auto simp: handleCellClick_def setSlot_def Let_def useEffect_not_playing
           split: option.splits)

theorem terminal_move_ends_turn_witness:
  "\<not> rejected 2 c7_state \<and> (2::nat) < length (board c7_state)
   \<and> list_all (\<lambda>cell. cell \<noteq> None) (board (handleCellClick 2 0 ''t9'' c7_state))
   \<and> checkWinner (board (handleCellClick 2 0 ''t9'' c7_state)) = Some P1
   \<and> gameState (handleCellClick 2 0 ''t9'' c7_state) = Won
   \<and> winner (handleCellClick 2 0 ''t9'' c7_state) = Some P1
   \<and> currentPlayer (handleCellClick 2 0 ''t9'' c7_state) = currentPlayer c7_state
   \<and> pendingAging (handleCellClick 2 0 ''t9'' c7_state) = pendingAging c7_state
   \<and> step (Click 2 0 ''t9'') c7_state = handleCellClick 2 0 ''t9'' c7_state"
proof -
  have h: "\<not> rejected 2 c7_state" "(2::nat) < length (board c7_state)"
    by code_simp+
  have f: "list_all (\<lambda>cell. cell \<noteq> None) (board (handleCellClick 2 0 ''t9'' c7_state))"
    "checkWinner (board (handleCellClick 2 0 ''t9'' c7_state)) = Some P1"
    by code_simp+
  from terminal_move_ends_turn [OF h, of 0 "''t9''"] h f show ?thesis by simp
qed

subsection \<open>The outcome after an aging pass\<close>

text \<open>
  C1, as the code has it. When an aging timer fires with the game in Playing, the game
  is still in Playing after the aging pass and the outcome is evaluated again: a
  winning triple gives Won for its owner; with no winning triple, the state becomes
  Draw when every cell of the board is empty and at least one move has been made;
  otherwise the game remains in progress.
\<close>

theorem post_aging_outcome:
  assumes "0 < pendingAging s" and "gameState s = Playing"
  shows "gameState (fireAging s) = Playing
     \<and> (\<forall>w. checkWinner (board (fireAging s)) = Some w \<longrightarrow>
            step AgingTimer s = (fireAging s)\<lparr>winner := Some w, gameState := Won\<rparr>)
     \<and> (checkWinner (board (fireAging s)) = None
          \<and> list_all (\<lambda>cell. cell = None) (board (fireAging s))
          \<and> 0 < moves (gameStats (fireAging s)) \<longrightarrow>
            step AgingTimer s = (fireAging s)\<lparr>gameState := Draw\<rparr>)
     \<and> (checkWinner (board (fireAging s)) = None
          \<and> \<not> (list_all (\<lambda>cell. cell = None) (board (fireAging s))
                \<and> 0 < moves (gameStats (fireAging s))) \<longrightarrow>
            step AgingTimer s = fireAging s)"
  using assms by (simp add: useEffect_def)

theorem post_aging_outcome_witness:
  "0 < pendingAging c1_state \<and> gameState c1_state = Playing
   \<and> checkWinner (board (fireAging c1_state)) = None
   \<and> list_all (\<lambda>cell. cell = None) (board (fireAging c1_state))
   \<and> 0 < moves (gameStats (fireAging c1_state))
   \<and> step AgingTimer c1_state = (fireAging c1_state)\<lparr>gameState := Draw\<rparr>"
proof -
  have h: "0 < pendingAging c1_state" "gameState c1_state = Playing"
    by code_simp+
  have f: "checkWinner (board (fireAging c1_state)) = None"
    "list_all (\<lambda>cell. cell = None) (board (fireAging c1_state))"
    "0 < moves (gameStats (fireAging c1_state))"
    by code_simp+
  from post_aging_outcome [OF h] h f show ?thesis by simp
qed

text \<open>
  C1 as stated, with Draw on a board without empty cells and the game in progress
  whenever some cell is empty, fails: after three quick moves and three aging passes
  the board is empty, no triple is won, and the game is a Draw.
\<close>

theorem draw_on_emptied_board_counterexample:
  "allEnabled [Click 0 0 ''t1'', Click 4 0 ''t2'', Click 8 0 ''t3'', AgingTimer, AgingTimer] initial
   \<and> 0 < pendingAging c1_state
   \<and> gameState (fireAging c1_state) = Playing
   \<and> checkWinner (board (fireAging c1_state)) = None
   \<and> slot (board (fireAging c1_state)) 0 = None
   \<and> 0 < moves (gameStats (fireAging c1_state))
   \<and> gameState (step AgingTimer c1_state) = Draw"
  by code_simp

subsection \<open>Three in a row\<close>

text \<open>
  C2. From the initial state, player 1 places at 0, 1 and 2 in three separate moves and
  player 2 places in between at two different slots outside the top row (for example 8
  and 7). Whatever aging timers fire in between, as long as fewer than
  \<open>BLINK_DURATION\<close> = 3 aging passes have run by the third placement of player 1 (so
  that none of the cells at 0 and 1 has expired), that placement ends the game: the
  state is Won, the winner is player 1, and the winner check on the final board gives
  player 1. Only a timer that is pending can fire, hence at most one before the second
  move.
\<close>

theorem three_in_a_row_wins:
  assumes a1: "a1 \<le> 1" and within: "int (a1 + a2 + a3 + a4) < BLINK_DURATION"
    and j1: "3 \<le> j1" "j1 < 9" and j2: "3 \<le> j2" "j2 < 9" and ne: "j1 \<noteq> j2"
  shows "gameState (run (scenario j1 j2 a1 a2 a3 a4 g st) initial) = Won
     \<and> winner (run (scenario j1 j2 a1 a2 a3 a4 g st) initial) = Some P1
     \<and> checkWinner (board (run (scenario j1 j2 a1 a2 a3 a4 g st) initial)) = Some P1"
proof -
  from within have sum: "a1 + a2 + a3 + a4 \<le> 2" by (simp add: BLINK_DURATION_def)
  define s1 where "s1 = step (Click 0 (g 0) (st 0)) initial"
  define t1 where "t1 = run (ticks a1) s1"
  define s2 where "s2 = step (Click j1 (g 1) (st 1)) t1"
  define t2 where "t2 = run (ticks a2) s2"
  define s3 where "s3 = step (Click 1 (g 2) (st 2)) t2"
  define t3 where "t3 = run (ticks a3) s3"
  define s4 where "s4 = step (Click j2 (g 3) (st 3)) t3"
  define t4 where "t4 = run (ticks a4) s4"
  have fin: "run (scenario j1 j2 a1 a2 a3 a4 g st) initial = step (Click 2 (g 4) (st 4)) t4"
    unfolding t4_def s4_def t3_def s3_def t2_def s2_def t1_def s1_def
    by (simp only: scenario_def run_append run.simps)
  \<comment> \<open>player 1 places at 0\<close>
  have c0: "countOf P1 (emojiCounts initial) \<le> 1" by (simp add: initial_def)
  have e0: "\<forall>k. k \<notin> {} \<longrightarrow> slot (board initial) k = None" by (simp add: initial_empty)
  note k1 = click_stage [OF phase_initial _ _ _ _ e0 c0, of 0 "g 0" "st 0", folded s1_def]
  have ph1: "phase s1 1 0 P2 1" using k1(1) by simp
  have al1: "alive s1 0 P1 3" using k1(2) by simp
  have em1: "\<forall>k. k \<notin> {0} \<longrightarrow> slot (board s1) k = None" using k1(4) by simp
  \<comment> \<open>timers\<close>
  have "int a1 < 3" using a1 by simp
  note r1 = ticks_run [OF ph1 a1 _ _ al1 this, folded t1_def]
  have ph1': "phase t1 1 0 P2 (1 - a1)" using r1 by simp
  have al1': "alive t1 0 P1 (3 - int a1)" using r1 al1 a1 by simp
  have em1': "\<forall>k. k \<notin> {0} \<longrightarrow> slot (board t1) k = None" using r1 em1 by simp
  \<comment> \<open>player 2 places at j1\<close>
  have c1: "countOf P2 (emojiCounts t1) \<le> 1" using ph1' by (simp add: phase_def)
  have i1: "j1 \<noteq> 2" "j1 \<notin> {0}" "2 \<notin> {0::nat}" using j1 by simp_all
  note k2 = click_stage [OF ph1' j1(2) i1 em1' c1, of "g 1" "st 1", folded s2_def]
  have ph2: "phase s2 1 1 P1 (1 - a1 + 1)" using k2(1) by simp
  have al2: "alive s2 0 P1 (3 - int a1)" using k2(3) al1' j1 by simp
  have em2: "\<forall>k. k \<notin> {j1, 0} \<longrightarrow> slot (board s2) k = None" using k2(4) by simp
  have le2: "a2 \<le> 1 - a1 + 1" using a1 sum by simp
  have lt2: "int a2 < 3 - int a1" using sum by simp
  note r2 = ticks_run [OF ph2 le2 _ _ al2 lt2, folded t2_def]
  have ph2': "phase t2 1 1 P1 (1 - a1 + 1 - a2)" using r2 by simp
  have al2': "alive t2 0 P1 (3 - int a1 - int a2)" using r2 al2 lt2 by simp
  have em2': "\<forall>k. k \<notin> {j1, 0} \<longrightarrow> slot (board t2) k = None" using r2 em2 by simp
  \<comment> \<open>player 1 places at 1\<close>
  have c2: "countOf P1 (emojiCounts t2) \<le> 1" using ph2' by (simp add: phase_def)
  have i2: "(1::nat) < 9" "(1::nat) \<noteq> 2" "1 \<notin> {j1, 0}" "2 \<notin> {j1, 0}" using j1 by simp_all
  note k3 = click_stage [OF ph2' i2 em2' c2, of "g 2" "st 2", folded s3_def]
  have ph3: "phase s3 2 1 P2 (1 - a1 + 1 - a2 + 1)" using k3(1) by (simp add: numeral_2_eq_2)
  have al3: "alive s3 0 P1 (3 - int a1 - int a2)" "alive s3 1 P1 3"
    using k3(2,3) al2' by simp_all
  have em3: "\<forall>k. k \<notin> {1, j1, 0} \<longrightarrow> slot (board s3) k = None" using k3(4) by simp
  have le3: "a3 \<le> 1 - a1 + 1 - a2 + 1" using a1 sum by simp
  have lt3: "int a3 < 3" "int a3 < 3 - int a1 - int a2" using sum by simp_all
  note r3 = ticks_run [OF ph3 le3 _ _ al3(2) lt3(1), folded t3_def]
  have ph3': "phase t3 2 1 P2 (1 - a1 + 1 - a2 + 1 - a3)" using r3 by simp
  have al3': "alive t3 0 P1 (3 - int a1 - int a2 - int a3)" "alive t3 1 P1 (3 - int a3)"
    using r3 al3 lt3 by simp_all
  have em3': "\<forall>k. k \<notin> {1, j1, 0} \<longrightarrow> slot (board t3) k = None" using r3 em3 by simp
  \<comment> \<open>player 2 places at j2\<close>
  have c3: "countOf P2 (emojiCounts t3) \<le> 1" using ph3' by (simp add: phase_def)
  have i3: "j2 \<noteq> 2" "j2 \<notin> {1, j1, 0}" "2 \<notin> {1, j1, 0}" using j1 j2 ne by simp_all
  note k4 = click_stage [OF ph3' j2(2) i3 em3' c3, of "g 3" "st 3", folded s4_def]
  have ph4: "phase s4 2 2 P1 (1 - a1 + 1 - a2 + 1 - a3 + 1)" using k4(1) by (simp add: numeral_2_eq_2)
  have al4: "alive s4 0 P1 (3 - int a1 - int a2 - int a3)" "alive s4 1 P1 (3 - int a3)"
    using k4(3) al3' j2 by simp_all
  have em4: "\<forall>k. k \<notin> {j2, 1, j1, 0} \<longrightarrow> slot (board s4) k = None" using k4(4) by simp
  have le4: "a4 \<le> 1 - a1 + 1 - a2 + 1 - a3 + 1" using a1 sum by simp
  have lt4: "int a4 < 3 - int a3" "int a4 < 3 - int a1 - int a2 - int a3" using sum by simp_all
  note r4 = ticks_run [OF ph4 le4 _ _ al4(2) lt4(1), folded t4_def]
  have ph4': "phase t4 2 2 P1 (1 - a1 + 1 - a2 + 1 - a3 + 1 - a4)" using r4 by simp
  have al4': "alive t4 0 P1 (3 - int a1 - int a2 - int a3 - int a4)"
    "alive t4 1 P1 (3 - int a3 - int a4)"
    using r4 al4 lt4 by simp_all
  have em4': "slot (board t4) 2 = None" using r4 em4 j1 j2 by simp
  \<comment> \<open>player 1 places at 2\<close>
  have "(2::nat) < 6" by simp
  note f = final_click [OF ph4' this al4' em4', of "g 4" "st 4"]
  show ?thesis unfolding fin using f by simp
qed

theorem three_in_a_row_wins_witness:
  "(0::nat) \<le> 1 \<and> int (0 + 1 + 0 + 1) < BLINK_DURATION
   \<and> allEnabled (scenario 8 7 0 1 0 1 (\<lambda>k. 0) (\<lambda>k. ''t'')) initial
   \<and> gameState (run (scenario 8 7 0 1 0 1 (\<lambda>k. 0) (\<lambda>k. ''t'')) initial) = Won
   \<and> winner (run (scenario 8 7 0 1 0 1 (\<lambda>k. 0) (\<lambda>k. ''t'')) initial) = Some P1"
proof -
  have h: "(0::nat) \<le> 1" "int (0 + 1 + 0 + 1) < BLINK_DURATION"
    "(3::nat) \<le> 8" "(8::nat) < 9" "(3::nat) \<le> 7" "(7::nat) < 9" "(8::nat) \<noteq> 7"
    by (simp_all add: BLINK_DURATION_def)
  have e: "allEnabled (scenario 8 7 0 1 0 1 (\<lambda>k. 0) (\<lambda>k. ''t'')) initial"
    by code_simp
  from three_in_a_row_wins [OF h, of "\<lambda>k. 0" "\<lambda>k. ''t''"] h(1,2) e show ?thesis by simp
qed

text \<open>
  With one aging pass after each move the cell at 0 has expired before the third
  placement of player 1, and the same five moves leave the game in progress.
\<close>

lemma scenario_one_aging_per_move:
  "gameState (run (scenario 8 7 1 1 1 1 (\<lambda>k. 0) (\<lambda>k. ''t'')) initial) = Playing"
  by code_simp

subsection \<open>Placement counters\<close>

text \<open>
  C10. Within a game (a run without reset) the placement counter of each player never
  decreases: the aging pass leaves both counters as they are and an accepted move adds
  one to the counter of the active player. In every reachable state each counter is at
  most \<open>MAX_EMOJIS_PER_PLAYER\<close> = 6, so a player places at most 6 emojis per game,
  vanished or not. Once both counters have reached 6, they stay as they are and every
  further move attempt is rejected, whatever clicks and aging timers follow.
\<close>

theorem placement_counter_never_decreases:
  assumes "Reset \<notin> set es"
  shows "countOf p (emojiCounts s) \<le> countOf p (emojiCounts (run es s))
     \<and> emojiCounts (ageEmojis s) = emojiCounts s
     \<and> (\<forall>index glyph stamp. \<not> rejected index s \<longrightarrow>
          countOf (currentPlayer s) (emojiCounts (step (Click index glyph stamp) s))
            = countOf (currentPlayer s) (emojiCounts s) + 1)
     \<and> (reachable s \<longrightarrow> countOf p (emojiCounts s) \<le> MAX_EMOJIS_PER_PLAYER)
     \<and> (MAX_EMOJIS_PER_PLAYER \<le> countOf P1 (emojiCounts s)
          \<and> MAX_EMOJIS_PER_PLAYER \<le> countOf P2 (emojiCounts s) \<longrightarrow>
          emojiCounts (run es s) = emojiCounts s
          \<and> (\<forall>index glyph stamp. rejected index (run es s)
                \<and> handleCellClick index glyph stamp (run es s) = run es s
                \<and> step (Click index glyph stamp) (run es s) = run es s))"
proof -
  have a: "countOf p (emojiCounts s) \<le> countOf p (emojiCounts (run es s))"
    using assms by (rule run_count_mono)
  have b: "emojiCounts (ageEmojis s) = emojiCounts s" by simp
  have c: "\<forall>index glyph stamp. \<not> rejected index s \<longrightarrow>
          countOf (currentPlayer s) (emojiCounts (step (Click index glyph stamp) s))
            = countOf (currentPlayer s) (emojiCounts s) + 1"
    by (simp add: handleCellClick_fields countOf_countInc)
  have d: "reachable s \<longrightarrow> countOf p (emojiCounts s) \<le> MAX_EMOJIS_PER_PLAYER"
    using reachable_counts [of s] by (simp add: countsOk_def)
  have e: "emojiCounts (run es s) = emojiCounts s
          \<and> (\<forall>index glyph stamp. rejected index (run es s)
                \<and> handleCellClick index glyph stamp (run es s) = run es s
                \<and> step (Click index glyph stamp) (run es s) = run es s)"
    if f: "MAX_EMOJIS_PER_PLAYER \<le> countOf P1 (emojiCounts s)"
      "MAX_EMOJIS_PER_PLAYER \<le> countOf P2 (emojiCounts s)"
  proof -
    have k: "emojiCounts (run es s) = emojiCounts s" using assms f by (rule full_run)
    with f have "rejected index (run es s)" for index by (simp add: full_rejected)
    with k show ?thesis by (simp add: handleCellClick_def)
  qed
  from a b c d e show ?thesis by blast
qed

theorem placement_counter_never_decreases_witness:
  "Reset \<notin> set [Click 4 0 ''t13'', AgingTimer, Click 5 0 ''t14'']
   \<and> reachable c10_state \<and> gameState c10_state = Playing
   \<and> countOf P1 (emojiCounts c10_state) = MAX_EMOJIS_PER_PLAYER
   \<and> countOf P2 (emojiCounts c10_state) = MAX_EMOJIS_PER_PLAYER
   \<and> liveCount P1 (board c10_state) = 1
   \<and> emojiCounts (run [Click 4 0 ''t13'', AgingTimer, Click 5 0 ''t14''] c10_state)
       = emojiCounts c10_state
   \<and> step (Click 6 0 ''t15'') (run [Click 4 0 ''t13'', AgingTimer, Click 5 0 ''t14''] c10_state)
       = run [Click 4 0 ''t13'', AgingTimer, Click 5 0 ''t14''] c10_state"
proof -
  have h: "Reset \<notin> set [Click 4 0 ''t13'', AgingTimer, Click 5 0 ''t14'']" by simp
  have en: "allEnabled c10_events initial" by code_simp
  have r: "reachable c10_state"
    unfolding c10_state_def by (rule reachable_run [OF reachable.start en])
  have f: "gameState c10_state = Playing"
    "countOf P1 (emojiCounts c10_state) = MAX_EMOJIS_PER_PLAYER"
    "countOf P2 (emojiCounts c10_state) = MAX_EMOJIS_PER_PLAYER"
    "liveCount P1 (board c10_state) = 1"
    by (simp_all add: c10_value MAX_EMOJIS_PER_PLAYER_def liveCount_def)
  have ge: "MAX_EMOJIS_PER_PLAYER \<le> countOf P1 (emojiCounts c10_state)"
    "MAX_EMOJIS_PER_PLAYER \<le> countOf P2 (emojiCounts c10_state)"
    using f by simp_all
  from placement_counter_never_decreases [OF h, of P1 c10_state] ge
  have k: "emojiCounts (run [Click 4 0 ''t13'', AgingTimer, Click 5 0 ''t14''] c10_state)
             = emojiCounts c10_state"
    and st: "step (Click 6 0 ''t15'')
               (run [Click 4 0 ''t13'', AgingTimer, Click 5 0 ''t14''] c10_state)
             = run [Click 4 0 ''t13'', AgingTimer, Click 5 0 ''t14''] c10_state"
    by blast+
  from h r f k st show ?thesis by blast
qed

end
